theory Spec2Isabelle
  imports Complex_Main "HOL-Library.Multiset" "HOL-Library.Word"
begin

section \<open>Go values used by the stresser\<close>

subsection \<open>Failures\<close>

text \<open>
  A Go function of this program ends in one of three ways: it returns a value, it returns
  an error built with \<^verbatim>\<open>errors.New\<close> (the message is kept), or it panics (an explicit
  \<^verbatim>\<open>panic(err)\<close> or a slice index out of range).  Failing computations are values of
  \<open>failure + 'a\<close>, with \<open>Inl\<close> for the failure.
\<close>

datatype failure = Err string | Panic string

subsection \<open>Machine integers\<close>

text \<open>
  Go's \<^verbatim>\<open>int\<close> is a 64-bit two's complement integer.  It is modelled by \<open>int\<close>;
  the products and sums of input values, which can leave the 64-bit range, are wrapped
  explicitly with \<open>wrap64\<close>.  Counters that are incremented once per element of a slice
  stay below the slice length and are not wrapped.  Integer division truncates
  towards zero (\<open>quo\<close>).
\<close>

definition wrap64 :: "int \<Rightarrow> int" where
  "wrap64 x = (x + 2 ^ 63) mod 2 ^ 64 - 2 ^ 63"

definition quo :: "int \<Rightarrow> int \<Rightarrow> int" where
  "quo a b = sgn a * sgn b * (\<bar>a\<bar> div \<bar>b\<bar>)"

text \<open>Reading a slice at an index: Go panics outside \<open>0 \<le> i < len(xs)\<close>.\<close>

definition index :: "'a list \<Rightarrow> int \<Rightarrow> failure + 'a" where
  "index xs i =
     (if 0 \<le> i \<and> i < int (length xs) then Inr (xs ! nat i)
      else Inl (Panic ''index out of range''))"

subsection \<open>float64\<close>

text \<open>
  A \<^verbatim>\<open>float64\<close> is a finite number, one of the two infinities, or NaN.  The special
  values follow IEEE 754 as Go implements it: a non-zero number divided by zero is an
  infinity, zero divided by zero is NaN, every comparison with NaN is false.  Finite
  arithmetic is exact here: rounding to 53 bits and overflow to infinity are not
  modelled, so a finite result stands for the float64 nearest to it.  The two zeros are
  one value; they compare equal in Go and differ only as divisors, and every divisor of
  this program comes from an \<^verbatim>\<open>int\<close> conversion or from \<^verbatim>\<open>Duration.Seconds\<close>, which
  never give the negative zero.
\<close>

datatype float64 = Finite real | PosInf | NegInf | NaN

fun isNaN :: "float64 \<Rightarrow> bool" where
  "isNaN NaN = True"
| "isNaN _ = False"

fun fsign :: "float64 \<Rightarrow> int" where
  "fsign (Finite a) = (if a < 0 then - 1 else if a = 0 then 0 else 1)"
| "fsign PosInf = 1"
| "fsign NegInf = - 1"
| "fsign NaN = 0"

definition signedInf :: "int \<Rightarrow> float64" where
  "signedInf s = (if 0 < s then PosInf else if s < 0 then NegInf else NaN)"

fun fadd :: "float64 \<Rightarrow> float64 \<Rightarrow> float64" where
  "fadd NaN _ = NaN"
| "fadd _ NaN = NaN"
| "fadd (Finite a) (Finite b) = Finite (a + b)"
| "fadd PosInf NegInf = NaN"
| "fadd NegInf PosInf = NaN"
| "fadd PosInf _ = PosInf"
| "fadd _ PosInf = PosInf"
| "fadd NegInf _ = NegInf"
| "fadd _ NegInf = NegInf"

fun fneg :: "float64 \<Rightarrow> float64" where
  "fneg (Finite a) = Finite (- a)"
| "fneg PosInf = NegInf"
| "fneg NegInf = PosInf"
| "fneg NaN = NaN"

definition fsub :: "float64 \<Rightarrow> float64 \<Rightarrow> float64" where
  "fsub x y = fadd x (fneg y)"

fun fmul :: "float64 \<Rightarrow> float64 \<Rightarrow> float64" where
  "fmul NaN _ = NaN"
| "fmul _ NaN = NaN"
| "fmul (Finite a) (Finite b) = Finite (a * b)"
| "fmul x y = signedInf (fsign x * fsign y)"

fun fdiv :: "float64 \<Rightarrow> float64 \<Rightarrow> float64" where
  "fdiv NaN _ = NaN"
| "fdiv _ NaN = NaN"
| "fdiv (Finite a) (Finite b) =
     (if b = 0 then signedInf (fsign (Finite a)) else Finite (a / b))"
| "fdiv (Finite a) _ = Finite 0"
| "fdiv x (Finite b) = signedInf (fsign x * (if b < 0 then - 1 else 1))"
| "fdiv _ _ = NaN"

text \<open>The comparisons \<^verbatim>\<open><\<close>, \<^verbatim>\<open><=\<close> and \<^verbatim>\<open>>=\<close> of the language.\<close>

fun flt :: "float64 \<Rightarrow> float64 \<Rightarrow> bool" where
  "flt NaN _ = False"
| "flt _ NaN = False"
| "flt (Finite a) (Finite b) = (a < b)"
| "flt NegInf NegInf = False"
| "flt PosInf _ = False"
| "flt NegInf _ = True"
| "flt _ PosInf = True"
| "flt _ _ = False"

fun fle :: "float64 \<Rightarrow> float64 \<Rightarrow> bool" where
  "fle NaN _ = False"
| "fle _ NaN = False"
| "fle NegInf _ = True"
| "fle _ PosInf = True"
| "fle (Finite a) (Finite b) = (a \<le> b)"
| "fle _ _ = False"

definition fge :: "float64 \<Rightarrow> float64 \<Rightarrow> bool" where
  "fge x y = fle y x"

text \<open>The conversion \<^verbatim>\<open>float64(n)\<close> of an \<^verbatim>\<open>int\<close>.\<close>

definition float64_of_int :: "int \<Rightarrow> float64" where
  "float64_of_int n = Finite (of_int n)"

subsection \<open>Durations\<close>

text \<open>
  A \<^verbatim>\<open>time.Duration\<close> is a count of nanoseconds; \<^verbatim>\<open>Seconds\<close> returns it in seconds as
  a float64: whole seconds plus the remaining nanoseconds divided by \<open>10\<^sup>9\<close>, which is
  the duration divided by \<open>10\<^sup>9\<close>.
\<close>

type_synonym Duration = int

definition Second :: Duration where
  "Second = 1000000000"

definition Seconds :: "Duration \<Rightarrow> float64" where
  "Seconds d = Finite (of_int d / 1000000000)"

subsection \<open>Sorting a float64 slice\<close>

text \<open>
  \<^verbatim>\<open>sort.Float64s\<close> sorts in increasing order with respect to the library's
  \<^verbatim>\<open>Less\<close>: \<^verbatim>\<open>x < y || (isNaN(x) && !isNaN(y))\<close>, so NaNs come first.  Elements that
  \<^verbatim>\<open>Less\<close> does not separate are equal values of \<open>float64\<close>, hence the sorted slice is
  determined by the input; it is computed here by insertion.
\<close>

definition float64Less :: "float64 \<Rightarrow> float64 \<Rightarrow> bool" where
  "float64Less x y = (flt x y \<or> (isNaN x \<and> \<not> isNaN y))"

fun insertFloat64 :: "float64 \<Rightarrow> float64 list \<Rightarrow> float64 list" where
  "insertFloat64 x [] = [x]"
| "insertFloat64 x (y # ys) =
     (if float64Less y x then y # insertFloat64 x ys else x # y # ys)"

fun Float64s :: "float64 list \<Rightarrow> float64 list" where
  "Float64s [] = []"
| "Float64s (x # xs) = insertFloat64 x (Float64s xs)"

text \<open>A slice is in increasing order when no later element is \<^verbatim>\<open>Less\<close> than an earlier one.\<close>

definition ascending :: "float64 list \<Rightarrow> bool" where
  "ascending xs = sorted_wrt (\<lambda>a b. \<not> float64Less b a) xs"

section \<open>Data shared by the two files\<close>

text \<open>
  The struct \<^verbatim>\<open>Worker\<close> of \<^verbatim>\<open>worker.go\<close>.  A \<^verbatim>\<open>PayloadGenerator\<close> is a function from the
  message index to the payload.
\<close>

type_synonym byte = "8 word"

type_synonym PayloadGenerator = "int \<Rightarrow> string"

record Worker =
  WorkerId :: int
  BrokerUrl :: string
  Username :: string
  Password :: string
  SkipTLSVerification :: bool
  NumberOfMessages :: int
  PayloadGenerator :: PayloadGenerator
  Timeout :: Duration
  Retained :: bool
  PublisherQoS :: byte
  CA :: "byte list"
  Cert :: "byte list"
  Key :: "byte list"
  PauseBetweenMessages :: Duration

subsection \<open>Events, results, summaries\<close>

type_synonym Event = string

definition ConnectFailedEvent :: Event where
  "ConnectFailedEvent = ''ConnectFailed''"

definition TimeoutExceededEvent :: Event where
  "TimeoutExceededEvent = ''TimeoutExceeded''"

definition AbortedEvent :: Event where
  "AbortedEvent = ''Aborted''"

definition CompletedEvent :: Event where
  "CompletedEvent = ''Completed''"

definition ProgressReportEvent :: Event where
  "ProgressReportEvent = ''ProgressReport''"

text \<open>
  Modelled from the spec: the struct \<^verbatim>\<open>Result\<close> is declared outside the two source files;
  these are the fields that \<^verbatim>\<open>report.go\<close> reads and \<^verbatim>\<open>worker.go\<close> writes, with the types
  their uses force (the specification's Outcome: worker identity, event tag, error flag,
  error detail, elapsed publish duration, count of published messages).  A field that a
  composite literal leaves out has Go's zero value.
\<close>

record Result =
  WorkerId :: int
  Event :: Event
  PublishTime :: Duration
  MessagesPublished :: int
  Error :: bool
  ErrorMessage :: "string option"

text \<open>
  The histogram is a Go map from bucket key to cumulative share.  It is represented by
  its entries in ascending key order, the order in which \<^verbatim>\<open>buildHistogram\<close> writes them
  and \<^verbatim>\<open>printHistogram\<close> prints them; the keys are distinct.
\<close>

type_synonym histogram = "(float64 \<times> float64) list"

record Summary =
  Clients :: int
  TotalMessages :: int
  MessagesPublished :: int
  Errors :: int
  ErrorRate :: float64
  Completed :: int
  InProgress :: int
  ConnectFailed :: int
  TimeoutExceeded :: int
  Aborted :: int
  PublishPerformance :: "float64 list"
  PublishPerformanceMedian :: float64
  PublishPerformanceHistogram :: histogram

section \<open>report.go\<close>

subsection \<open>median\<close>

definition median :: "float64 list \<Rightarrow> failure + float64" where
  "median series =
     (case index series (quo (int (length series) - 1) 2) of
        Inl e \<Rightarrow> Inl e
      | Inr a \<Rightarrow>
          (case index series (quo (int (length series)) 2) of
             Inl e \<Rightarrow> Inl e
           | Inr b \<Rightarrow> Inr (fdiv (fadd a b) (Finite 2))))"

subsection \<open>buildHistogram\<close>

definition nBuckets :: int where
  "nBuckets = 10"

text \<open>
  The inner loop \<^verbatim>\<open>for i := 0; i <= nBuckets; i++\<close>: every interval \<open>[f0, f1]\<close> that
  holds \<open>v\<close> overwrites \<open>tmp\<close>, and the scan goes on to the end.
\<close>

function bucketScan :: "float64 \<Rightarrow> float64 \<Rightarrow> float64 \<Rightarrow> int \<Rightarrow> float64 \<Rightarrow> float64" where
  "bucketScan slowest steps v i tmp =
     (if i \<le> nBuckets then
        (let f0 = fadd slowest (fmul steps (float64_of_int i));
             f1 = fadd slowest (fmul steps (float64_of_int (i + 1)))
         in bucketScan slowest steps v (i + 1)
              (if fge v f0 \<and> fle v f1 then f1 else tmp))
      else tmp)"
  by pat_completeness auto
termination
  by (relation "measure (\<lambda>(slowest, steps, v, i, tmp). nat (nBuckets + 1 - i))") auto

declare bucketScan.simps [simp del]

text \<open>\<^verbatim>\<open>bucketCount[tmp]++\<close> on a map that holds no zero entries: a missing key starts at 1.\<close>

fun increment :: "float64 \<Rightarrow> (float64 \<times> int) list \<Rightarrow> (float64 \<times> int) list" where
  "increment k [] = [(k, 1)]"
| "increment k ((k', c) # m) =
     (if k' = k then (k', c + 1) # m else (k', c) # increment k m)"

text \<open>Reading \<^verbatim>\<open>bucketCount[k]\<close>: the zero value for a missing key.\<close>

fun lookup :: "(float64 \<times> int) list \<Rightarrow> float64 \<Rightarrow> int" where
  "lookup [] k = 0"
| "lookup ((k', c) # m) k = (if k' = k then c else lookup m k)"

definition countBuckets :: "float64 \<Rightarrow> float64 \<Rightarrow> float64 list \<Rightarrow> (float64 \<times> int) list" where
  "countBuckets slowest steps series =
     fold (\<lambda>v bucketCount. increment (bucketScan slowest steps v 0 (Finite 0)) bucketCount)
       series []"

text \<open>The last loop, over the sorted keys, with the running value \<open>prev\<close>.\<close>

fun cumulate :: "(float64 \<times> int) list \<Rightarrow> int \<Rightarrow> float64 list \<Rightarrow> float64 \<Rightarrow> histogram" where
  "cumulate bucketCount totalN [] prev = []"
| "cumulate bucketCount totalN (k # keys) prev =
     (let cur = fadd (fdiv (float64_of_int (lookup bucketCount k)) (float64_of_int totalN)) prev
      in (k, cur) # cumulate bucketCount totalN keys cur)"

definition buildHistogram :: "float64 list \<Rightarrow> int \<Rightarrow> failure + histogram" where
  "buildHistogram series totalN =
     (case index series 0 of
        Inl e \<Rightarrow> Inl e
      | Inr slowest \<Rightarrow>
          (case index series (int (length series) - 1) of
             Inl e \<Rightarrow> Inl e
           | Inr fastest \<Rightarrow>
               (let steps = fdiv (fsub fastest slowest) (float64_of_int nBuckets);
                    bucketCount = countBuckets slowest steps series;
                    keys = Float64s (map fst bucketCount)
                in Inr (cumulate bucketCount totalN keys (Finite 0)))))"

subsection \<open>buildSummary\<close>

text \<open>The variables that the loop over the results updates.\<close>

record tally =
  nMessagesPublished :: int
  nErrors :: int
  nCompleted :: int
  nInProgress :: int
  nConnectFailed :: int
  nTimeoutExceeded :: int
  nAborted :: int
  publishPerformance :: "float64 list"

definition tally0 :: tally where
  "tally0 = \<lparr>nMessagesPublished = 0, nErrors = 0, nCompleted = 0, nInProgress = 0,
     nConnectFailed = 0, nTimeoutExceeded = 0, nAborted = 0, publishPerformance = []\<rparr>"

definition countError :: "Result \<Rightarrow> tally \<Rightarrow> tally" where
  "countError r t =
     (if Error r then
        (let t1 = t\<lparr>nErrors := nErrors t + 1\<rparr>
         in if Event r = ConnectFailedEvent then t1\<lparr>nConnectFailed := nConnectFailed t1 + 1\<rparr>
            else if Event r = TimeoutExceededEvent then t1\<lparr>nTimeoutExceeded := nTimeoutExceeded t1 + 1\<rparr>
            else if Event r = AbortedEvent then t1\<lparr>nAborted := nAborted t1 + 1\<rparr>
            else t1)
      else t)"

definition countEvent :: "Result \<Rightarrow> tally \<Rightarrow> tally" where
  "countEvent r t =
     (let t1 = (if Event r = CompletedEvent then t\<lparr>nCompleted := nCompleted t + 1\<rparr> else t);
          t2 = (if Event r = ProgressReportEvent then t1\<lparr>nInProgress := nInProgress t1 + 1\<rparr> else t1)
      in if Event r = CompletedEvent \<or> Event r = ProgressReportEvent then
           t2\<lparr>publishPerformance := publishPerformance t2 @
                [fdiv (float64_of_int (Result.MessagesPublished r)) (Seconds (PublishTime r))]\<rparr>
         else t2)"

definition tallyStep :: "Result \<Rightarrow> tally \<Rightarrow> tally" where
  "tallyStep r t =
     countEvent r (countError r
       (t\<lparr>nMessagesPublished := wrap64 (nMessagesPublished t + Result.MessagesPublished r)\<rparr>))"

definition buildSummary :: "int \<Rightarrow> int \<Rightarrow> Result list \<Rightarrow> failure + Summary" where
  "buildSummary nClient nMessages results =
     (if length results = 0 then Inl (Err ''no results collected'')
      else
        (let totalMessages = wrap64 (nClient * nMessages);
             t = fold tallyStep results tally0
         in if length (publishPerformance t) = 0 then Inl (Err ''no feasible results found'')
            else
              (let perf = Float64s (publishPerformance t);
                   errorRate = fmul (fdiv (float64_of_int (nErrors t)) (float64_of_int nClient))
                                 (Finite 100)
               in case median perf of
                    Inl e \<Rightarrow> Inl e
                  | Inr m \<Rightarrow>
                      (case buildHistogram perf (nCompleted t + nInProgress t) of
                         Inl e \<Rightarrow> Inl e
                       | Inr h \<Rightarrow>
                           Inr \<lparr>Clients = nClient,
                                TotalMessages = totalMessages,
                                MessagesPublished = nMessagesPublished t,
                                Errors = nErrors t,
                                ErrorRate = errorRate,
                                Completed = nCompleted t,
                                InProgress = nInProgress t,
                                ConnectFailed = nConnectFailed t,
                                TimeoutExceeded = nTimeoutExceeded t,
                                Aborted = nAborted t,
                                PublishPerformance = perf,
                                PublishPerformanceMedian = m,
                                PublishPerformanceHistogram = h\<rparr>))))"

text \<open>The two error conditions, under the names the specification gives them.\<close>

definition EmptyResultSet :: failure where
  "EmptyResultSet = Err ''no results collected''"

definition NoFeasibleSamples :: failure where
  "NoFeasibleSamples = Err ''no feasible results found''"


subsection \<open>What the functions return when they do not panic\<close>

text \<open>
  \<^verbatim>\<open>median\<close> and \<^verbatim>\<open>buildHistogram\<close> read \<^verbatim>\<open>series[0]\<close> and \<^verbatim>\<open>series[len(series)-1]\<close>
  and so panic on an empty slice only.  These are their values on a non-empty one
  (\<open>median_nonempty\<close>, \<open>buildHistogram_nonempty\<close> below).
\<close>

definition medianOf :: "float64 list \<Rightarrow> float64" where
  "medianOf series =
     fdiv (fadd (series ! ((length series - 1) div 2)) (series ! (length series div 2))) (Finite 2)"

definition histogramOf :: "float64 list \<Rightarrow> int \<Rightarrow> histogram" where
  "histogramOf series totalN =
     (let slowest = hd series;
          steps = fdiv (fsub (last series) slowest) (float64_of_int nBuckets);
          bucketCount = countBuckets slowest steps series
      in cumulate bucketCount totalN (Float64s (map fst bucketCount)) (Finite 0))"

text \<open>
  The test of line 79 of \<^verbatim>\<open>report.go\<close>, which makes a result contribute a throughput
  sample, and the sample of line 80.
\<close>

definition eligible :: "Result \<Rightarrow> bool" where
  "eligible r = (Event r = CompletedEvent \<or> Event r = ProgressReportEvent)"

definition throughput :: "Result \<Rightarrow> float64" where
  "throughput r = fdiv (float64_of_int (Result.MessagesPublished r)) (Seconds (PublishTime r))"

section \<open>worker.go\<close>

subsection \<open>The TLS configuration and the client options\<close>

text \<open>
  The fields of \<^verbatim>\<open>tls.Config\<close> that \<^verbatim>\<open>NewTLSConfig\<close> and \<^verbatim>\<open>setSkipTLS\<close> set, and the fields
  of the MQTT client options that \<^verbatim>\<open>Run\<close> sets.  A certificate pool is the list of PEM
  blocks appended to it; a parsed key pair keeps the two blocks it was parsed from.
\<close>

datatype Certificate = Certificate "byte list" "byte list"

datatype ClientAuthType = NoClientCert

record Config =
  RootCAs :: "byte list list"
  ClientAuth :: ClientAuthType
  ClientCAs :: "byte list list"
  InsecureSkipVerify :: bool
  Certificates :: "Certificate list"

text \<open>The configuration that \<^verbatim>\<open>mqtt.NewClientOptions\<close> starts from.\<close>

definition Config0 :: Config where
  "Config0 = \<lparr>RootCAs = [], ClientAuth = NoClientCert, ClientCAs = [],
     InsecureSkipVerify = False, Certificates = []\<rparr>"

record ClientOptions =
  ClientID :: string
  Username :: string
  Password :: string
  Servers :: "string list"
  TLSConfig :: Config

subsection \<open>The world outside the worker\<close>

text \<open>
  \<^verbatim>\<open>Run\<close> calls the operating system, the random source, the X.509 parser and the MQTT
  client.  What they answer is not decided by this program, so it is a parameter of the
  model: an environment \<open>Env\<close>.  A token is what the worker can observe of an MQTT
  operation: whether \<^verbatim>\<open>WaitTimeout\<close> returned true (the operation ended before the
  timeout) and what \<^verbatim>\<open>Error\<close> returns.  The two name templates are declared outside the
  source files; the formatted names are parameters as well.
\<close>

record Token =
  inTime :: bool
  tokenError :: "string option"

record Env =
  hostname :: "string + string"
  int31 :: int
  idNum :: "int \<Rightarrow> string"
  topicNameOf :: "string \<Rightarrow> string \<Rightarrow> int \<Rightarrow> string"
  publisherClientIdOf :: "string \<Rightarrow> string"
  appendCertsFromPEM :: "byte list \<Rightarrow> bool"
  x509KeyPair :: "byte list \<Rightarrow> byte list \<Rightarrow> string + Certificate"
  connectToken :: "ClientOptions \<Rightarrow> Token"
  publishToken :: "int \<Rightarrow> Token"
  since :: Duration

text \<open>
  What a worker does to the outside, in order: the calls on the MQTT client, the waits
  with the answer they got, the sleeps, and the results sent on \<^verbatim>\<open>resultChan\<close>; the lines
  written to the verbose log are left out.  A run ends by returning or by a panic, which
  nothing in the source files recovers.
\<close>

datatype action =
    Connect ClientOptions
  | Publish string byte bool string
  | WaitTimeout Duration bool
  | Sleep Duration
  | Disconnect int
  | Send Result

datatype ending = Returned | Panicked string

subsection \<open>setSkipTLS and NewTLSConfig\<close>

definition setSkipTLS :: "ClientOptions \<Rightarrow> ClientOptions" where
  "setSkipTLS opts =
     (let oldTLSCfg = TLSConfig opts
      in opts\<lparr>TLSConfig := oldTLSCfg\<lparr>InsecureSkipVerify := True\<rparr>\<rparr>)"

definition NewTLSConfig :: "Env \<Rightarrow> byte list \<Rightarrow> byte list \<Rightarrow> byte list \<Rightarrow> string + Config" where
  "NewTLSConfig env ca certificate privkey =
     (if \<not> appendCertsFromPEM env ca then Inl ''CA is invalid''
      else
        (case x509KeyPair env certificate privkey of
           Inl err \<Rightarrow> Inl err
         | Inr cert \<Rightarrow>
             Inr \<lparr>RootCAs = [ca], ClientAuth = NoClientCert, ClientCAs = [],
                  InsecureSkipVerify = False, Certificates = [cert]\<rparr>))"

subsection \<open>Run\<close>

text \<open>One turn of the publish loop: publish, wait for the acknowledgment, sleep.\<close>

definition publishStep :: "Env \<Rightarrow> Worker \<Rightarrow> string \<Rightarrow> int \<Rightarrow> action list" where
  "publishStep env w topic i =
     [Publish topic (PublisherQoS w) (Retained w) (PayloadGenerator w i),
      WaitTimeout (Timeout w) (inTime (publishToken env i)),
      Sleep (PauseBetweenMessages w)]"

function publishLoop ::
    "Env \<Rightarrow> Worker \<Rightarrow> string \<Rightarrow> int \<Rightarrow> int \<Rightarrow> action list \<Rightarrow> int \<times> action list" where
  "publishLoop env w topic i publishedCount trace =
     (if i < NumberOfMessages w then
        publishLoop env w topic (i + 1) (publishedCount + 1) (trace @ publishStep env w topic i)
      else (publishedCount, trace))"
  by pat_completeness auto
termination
  by (relation "measure (\<lambda>(env, w, topic, i, publishedCount, trace). nat (NumberOfMessages w - i))")
     auto

declare publishLoop.simps [simp del]

text \<open>Lines 105 to 117: the options of the publisher, or the error that \<^verbatim>\<open>Run\<close> panics with.\<close>

definition publisherOptions :: "Env \<Rightarrow> Worker \<Rightarrow> string + ClientOptions" where
  "publisherOptions env w =
     (let id_num = idNum env (Worker.WorkerId w);
          opts = \<lparr>ClientID = publisherClientIdOf env id_num, Username = Worker.Username w,
                  Password = Worker.Password w, Servers = [BrokerUrl w], TLSConfig = Config0\<rparr>;
          opts1 = (if SkipTLSVerification w then setSkipTLS opts else opts)
      in if 0 < length (CA w) \<or> 0 < length (Key w) then
           (case NewTLSConfig env (CA w) (Cert w) (Key w) of
              Inl err \<Rightarrow> Inl err
            | Inr tlsConfig \<Rightarrow> Inr (opts1\<lparr>TLSConfig := tlsConfig\<rparr>))
         else Inr opts1)"

definition Run :: "Env \<Rightarrow> Worker \<Rightarrow> ending \<times> action list" where
  "Run env w =
     (case hostname env of
        Inl err \<Rightarrow> (Panicked err, [])
      | Inr host \<Rightarrow>
          (let topic = topicNameOf env host (idNum env (Worker.WorkerId w)) (int31 env)
           in case publisherOptions env w of
                Inl err \<Rightarrow> (Panicked err, [])
              | Inr opts \<Rightarrow>
                  (let token = connectToken env opts;
                       trace = [Connect opts, WaitTimeout (Timeout w) (inTime token)]
                   in if inTime token \<and> tokenError token \<noteq> None then
                        (Returned, trace @
                          [Send \<lparr>WorkerId = Worker.WorkerId w, Event = ConnectFailedEvent,
                                 PublishTime = 0, MessagesPublished = 0, Error = True,
                                 ErrorMessage = tokenError token\<rparr>])
                      else
                        (case publishLoop env w topic 0 0 trace of
                           (publishedCount, trace') \<Rightarrow>
                             (Returned, trace' @
                               [Disconnect 5,
                                Send \<lparr>WorkerId = Worker.WorkerId w, Event = CompletedEvent,
                                       PublishTime = since env,
                                       MessagesPublished = publishedCount, Error = False,
                                       ErrorMessage = None\<rparr>])))))"

text \<open>The results that a trace sends on the channel.\<close>

fun sent :: "action list \<Rightarrow> Result list" where
  "sent [] = []"
| "sent (Send r # as) = r # sent as"
| "sent (_ # as) = sent as"

subsection \<open>A broker that never answers and a worker with a broken CA\<close>

text \<open>
  Concrete runs.  In \<open>silentBroker\<close> every wait times out: no token ends in time and
  none carries an error.  In \<open>lateAcks\<close> the connection is made in time and no
  acknowledgment of a publish arrives in time.  \<open>plainWorker\<close> publishes two messages
  without TLS material; \<open>tlsWorker\<close> is the same worker with a CA block, which \<open>brokenCA\<close>
  refuses.
\<close>

definition silentBroker :: Env where
  "silentBroker =
     \<lparr>hostname = Inr ''host'', int31 = 7, idNum = (\<lambda>n. ''00000000000001''),
      topicNameOf = (\<lambda>h n t. ''topic''), publisherClientIdOf = (\<lambda>n. ''client''),
      appendCertsFromPEM = (\<lambda>ca. True), x509KeyPair = (\<lambda>c k. Inr (Certificate c k)),
      connectToken = (\<lambda>opts. \<lparr>inTime = False, tokenError = None\<rparr>),
      publishToken = (\<lambda>i. \<lparr>inTime = False, tokenError = None\<rparr>),
      since = 3 * Second\<rparr>"

definition lateAcks :: Env where
  "lateAcks = silentBroker\<lparr>connectToken := (\<lambda>opts. \<lparr>inTime = True, tokenError = None\<rparr>)\<rparr>"

definition brokenCA :: Env where
  "brokenCA = silentBroker\<lparr>appendCertsFromPEM := (\<lambda>ca. False)\<rparr>"

definition plainWorker :: Worker where
  "plainWorker =
     \<lparr>Worker.WorkerId = 1, BrokerUrl = ''tcp://localhost:1883'', Username = [], Password = [],
      SkipTLSVerification = False, NumberOfMessages = 2, PayloadGenerator = (\<lambda>i. ''payload''),
      Timeout = 5 * Second, Retained = False, PublisherQoS = 1, CA = [], Cert = [], Key = [],
      PauseBetweenMessages = 0\<rparr>"

definition tlsWorker :: Worker where
  "tlsWorker = plainWorker\<lparr>CA := [1]\<rparr>"


text \<open>The key under which lines 150 to 162 count the sample \<open>v\<close> of a series.\<close>

definition bucketOf :: "float64 list \<Rightarrow> float64 \<Rightarrow> float64" where
  "bucketOf series v =
     bucketScan (hd series) (fdiv (fsub (last series) (hd series)) (float64_of_int nBuckets))
       v 0 (Finite 0)"

text \<open>
  The quantities of the scan, as the program computes them: the width of line 147, the
  bounds \<open>f0\<close> and \<open>f1\<close> of lines 154 and 155 for the index \<open>i\<close>, and the test of line 157.
\<close>

definition stepsOf :: "float64 list \<Rightarrow> float64" where
  "stepsOf series = fdiv (fsub (last series) (hd series)) (float64_of_int nBuckets)"

definition intervalLower :: "float64 \<Rightarrow> float64 \<Rightarrow> int \<Rightarrow> float64" where
  "intervalLower slowest steps i = fadd slowest (fmul steps (float64_of_int i))"

definition intervalUpper :: "float64 \<Rightarrow> float64 \<Rightarrow> int \<Rightarrow> float64" where
  "intervalUpper slowest steps i = fadd slowest (fmul steps (float64_of_int (i + 1)))"

definition inInterval :: "float64 \<Rightarrow> float64 \<Rightarrow> float64 \<Rightarrow> int \<Rightarrow> bool" where
  "inInterval slowest steps v i =
     (fge v (intervalLower slowest steps i) \<and> fle v (intervalUpper slowest steps i))"

section \<open>Properties of report.go\<close>

lemma quo_nonneg: "0 \<le> a \<Longrightarrow> 0 < b \<Longrightarrow> quo a b = a div b"
  by (cases "a = 0") (simp_all add: quo_def)

lemma index_in_range: "i < length xs \<Longrightarrow> index xs (int i) = Inr (xs ! i)"
  by (simp add: index_def)

lemma median_nonempty:
  assumes "series \<noteq> []"
  shows "median series =
    Inr (fdiv (fadd (series ! ((length series - 1) div 2)) (series ! (length series div 2))) (Finite 2))"
proof -
  let ?n = "length series"
  from assms have n: "0 < ?n" by simp
  then obtain m where m: "?n = Suc m" by (cases "?n") simp_all
  have a: "quo (int ?n - 1) 2 = int ((?n - 1) div 2)"
    unfolding m by (simp add: quo_nonneg zdiv_int)
  have b: "quo (int ?n) 2 = int (?n div 2)"
    by (simp add: quo_nonneg zdiv_int)
  have "(?n - 1) div 2 < ?n" "?n div 2 < ?n" unfolding m by simp_all
  then show ?thesis
    unfolding median_def a b by (simp add: index_in_range)
qed

lemmas event_defs = ConnectFailedEvent_def TimeoutExceededEvent_def AbortedEvent_def
  CompletedEvent_def ProgressReportEvent_def

lemma fold_publishPerformance:
  "publishPerformance (fold tallyStep rs t) =
     publishPerformance t @ map throughput (filter eligible rs)"
  by (induction rs arbitrary: t)
     (simp_all add: tallyStep_def countEvent_def countError_def eligible_def throughput_def Let_def)

lemma fold_nErrors:
  "nErrors (fold tallyStep rs t) = nErrors t + int (length (filter Error rs))"
  by (induction rs arbitrary: t)
     (simp_all add: tallyStep_def countEvent_def countError_def Let_def)

lemma fold_nCompleted:
  "nCompleted (fold tallyStep rs t) =
     nCompleted t + int (length (filter (\<lambda>r. Event r = CompletedEvent) rs))"
  by (induction rs arbitrary: t)
     (simp_all add: tallyStep_def countEvent_def countError_def Let_def)

lemma fold_nInProgress:
  "nInProgress (fold tallyStep rs t) =
     nInProgress t + int (length (filter (\<lambda>r. Event r = ProgressReportEvent) rs))"
  by (induction rs arbitrary: t)
     (simp_all add: tallyStep_def countEvent_def countError_def Let_def)

lemma fold_nConnectFailed:
  "nConnectFailed (fold tallyStep rs t) =
     nConnectFailed t + int (length (filter (\<lambda>r. Error r \<and> Event r = ConnectFailedEvent) rs))"
  by (induction rs arbitrary: t)
     (simp_all add: tallyStep_def countEvent_def countError_def Let_def)

lemma fold_nTimeoutExceeded:
  "nTimeoutExceeded (fold tallyStep rs t) =
     nTimeoutExceeded t + int (length (filter (\<lambda>r. Error r \<and> Event r = TimeoutExceededEvent) rs))"
  by (induction rs arbitrary: t)
     (simp_all add: tallyStep_def countEvent_def countError_def Let_def event_defs)

lemma fold_nAborted:
  "nAborted (fold tallyStep rs t) =
     nAborted t + int (length (filter (\<lambda>r. Error r \<and> Event r = AbortedEvent) rs))"
  by (induction rs arbitrary: t)
     (simp_all add: tallyStep_def countEvent_def countError_def Let_def event_defs)

lemma length_insertFloat64: "length (insertFloat64 x xs) = Suc (length xs)"
  by (induction xs) simp_all

lemma length_Float64s: "length (Float64s xs) = length xs"
  by (induction xs) (simp_all add: length_insertFloat64)

lemma mset_insertFloat64: "mset (insertFloat64 x xs) = add_mset x (mset xs)"
  by (induction xs) simp_all

lemma mset_Float64s: "mset (Float64s xs) = mset xs"
  by (induction xs) (simp_all add: mset_insertFloat64)

lemma float64Less_total: "\<not> float64Less x y \<Longrightarrow> x \<noteq> y \<Longrightarrow> float64Less y x"
  by (cases x; cases y) (auto simp: float64Less_def)

lemma float64Less_asym: "float64Less x y \<Longrightarrow> \<not> float64Less y x"
  by (cases x; cases y) (auto simp: float64Less_def)

lemma float64Less_trans: "float64Less x y \<Longrightarrow> float64Less y z \<Longrightarrow> float64Less x z"
  by (cases x; cases y; cases z) (auto simp: float64Less_def)

lemma not_float64Less_trans:
  "\<not> float64Less y x \<Longrightarrow> \<not> float64Less z y \<Longrightarrow> \<not> float64Less z x"
  by (cases x; cases y; cases z) (auto simp: float64Less_def)

lemma set_insertFloat64: "set (insertFloat64 x xs) = insert x (set xs)"
  by (induction xs) auto

lemma ascending_Cons:
  "ascending (x # xs) = ((\<forall>z\<in>set xs. \<not> float64Less z x) \<and> ascending xs)"
  by (simp add: ascending_def)

lemma ascending_insertFloat64:
  "ascending xs \<Longrightarrow> ascending (insertFloat64 x xs)"
proof (induction xs)
  case Nil
  then show ?case by (simp add: ascending_def)
next
  case (Cons y ys)
  from Cons.prems have tl: "ascending ys" and hd: "\<forall>z\<in>set ys. \<not> float64Less z y"
    by (simp_all add: ascending_Cons)
  show ?case
  proof (cases "float64Less y x")
    case True
    then have "\<not> float64Less x y" by (rule float64Less_asym)
    moreover have "ascending (insertFloat64 x ys)" using tl by (rule Cons.IH)
    ultimately have "ascending (y # insertFloat64 x ys)"
      using hd by (simp add: ascending_Cons set_insertFloat64)
    with True show ?thesis by simp
  next
    case False
    have "\<forall>z\<in>set ys. \<not> float64Less z x"
    proof
      fix z assume "z \<in> set ys"
      with hd have "\<not> float64Less z y" by simp
      with False show "\<not> float64Less z x" by (rule not_float64Less_trans)
    qed
    with False Cons.prems have "ascending (x # y # ys)"
      by (simp add: ascending_Cons)
    with False show ?thesis by simp
  qed
qed

lemma ascending_Float64s: "ascending (Float64s xs)"
  by (induction xs) (simp_all add: ascending_insertFloat64 ascending_def [of "[]"])


lemma index_first: "series \<noteq> [] \<Longrightarrow> index series 0 = Inr (hd series)"
  by (cases series) (simp_all add: index_def)

lemma index_last:
  "series \<noteq> [] \<Longrightarrow> index series (int (length series) - 1) = Inr (last series)"
proof -
  assume ne: "series \<noteq> []"
  then obtain m where m: "length series = Suc m" by (cases series) simp_all
  have "index series (int m) = Inr (series ! m)"
    by (rule index_in_range) (simp add: m)
  moreover have "series ! m = last series"
    using ne m by (simp add: last_conv_nth)
  ultimately show ?thesis by (simp add: m)
qed

lemma buildHistogram_nonempty:
  "series \<noteq> [] \<Longrightarrow> buildHistogram series totalN = Inr (histogramOf series totalN)"
  by (simp add: buildHistogram_def index_first index_last histogramOf_def Let_def)

lemma buildHistogram_empty: "buildHistogram [] totalN = Inl (Panic ''index out of range'')"
  by (simp add: buildHistogram_def index_def)

lemma fold_tally0_perf:
  "publishPerformance (fold tallyStep rs tally0) = map throughput (filter eligible rs)"
  by (simp add: fold_publishPerformance tally0_def)

lemma buildSummary_empty: "buildSummary c n [] = Inl EmptyResultSet"
  by (simp add: buildSummary_def EmptyResultSet_def)

lemma buildSummary_infeasible:
  assumes "rs \<noteq> []" and "filter eligible rs = []"
  shows "buildSummary c n rs = Inl NoFeasibleSamples"
  using assms by (simp add: buildSummary_def NoFeasibleSamples_def fold_tally0_perf Let_def)

lemma buildSummary_feasible:
  assumes "filter eligible rs \<noteq> []"
  defines "t \<equiv> fold tallyStep rs tally0"
  defines "perf \<equiv> Float64s (map throughput (filter eligible rs))"
  shows "buildSummary c n rs =
    Inr \<lparr>Clients = c,
         TotalMessages = wrap64 (c * n),
         MessagesPublished = nMessagesPublished t,
         Errors = nErrors t,
         ErrorRate = fmul (fdiv (float64_of_int (nErrors t)) (float64_of_int c)) (Finite 100),
         Completed = nCompleted t,
         InProgress = nInProgress t,
         ConnectFailed = nConnectFailed t,
         TimeoutExceeded = nTimeoutExceeded t,
         Aborted = nAborted t,
         PublishPerformance = perf,
         PublishPerformanceMedian = medianOf perf,
         PublishPerformanceHistogram = histogramOf perf (nCompleted t + nInProgress t)\<rparr>"
proof -
  from assms(1) have rs: "rs \<noteq> []" by auto
  have pp: "publishPerformance t = map throughput (filter eligible rs)"
    by (simp add: t_def fold_tally0_perf)
  with assms(1) have ne: "publishPerformance t \<noteq> []" by simp
  have "length perf = length (filter eligible rs)"
    by (simp add: perf_def length_Float64s)
  with assms(1) have perf: "perf \<noteq> []" by auto
  have med: "median perf = Inr (medianOf perf)"
    using perf by (simp add: median_nonempty medianOf_def)
  have hist: "buildHistogram perf (nCompleted t + nInProgress t)
      = Inr (histogramOf perf (nCompleted t + nInProgress t))"
    using perf by (rule buildHistogram_nonempty)
  have "Float64s (publishPerformance t) = perf" by (simp add: pp perf_def)
  then show ?thesis
    unfolding buildSummary_def t_def [symmetric] Let_def
    using rs ne med hist by simp
qed

lemma filter_eligible_empty:
  "(filter eligible rs = []) = (\<forall>r\<in>set rs. Event r \<noteq> CompletedEvent \<and> Event r \<noteq> ProgressReportEvent)"
  by (auto simp: filter_empty_conv eligible_def)

text \<open>
  C2.  \<^verbatim>\<open>buildSummary\<close> fails with the EmptyResultSet error exactly when the list of
  results is empty, and with the NoFeasibleSamples error exactly when the list is not
  empty and no result has the event Completed or ProgressReport; on every other list it
  returns a summary.
\<close>

theorem summarize_failure_conditions:
  "(buildSummary c n rs = Inl EmptyResultSet \<longleftrightarrow> rs = []) \<and>
   (buildSummary c n rs = Inl NoFeasibleSamples \<longleftrightarrow>
      rs \<noteq> [] \<and> (\<forall>r\<in>set rs. Event r \<noteq> CompletedEvent \<and> Event r \<noteq> ProgressReportEvent)) \<and>
   (rs \<noteq> [] \<and> (\<exists>r\<in>set rs. Event r = CompletedEvent \<or> Event r = ProgressReportEvent)
      \<longrightarrow> (\<exists>s. buildSummary c n rs = Inr s))"
proof (cases "rs = []")
  case True
  then show ?thesis
    by (simp add: buildSummary_empty EmptyResultSet_def NoFeasibleSamples_def)
next
  case ne: False
  show ?thesis
  proof (cases "filter eligible rs = []")
    case True
    with ne have "buildSummary c n rs = Inl NoFeasibleSamples"
      by (rule buildSummary_infeasible)
    moreover from True
    have "\<forall>r\<in>set rs. Event r \<noteq> CompletedEvent \<and> Event r \<noteq> ProgressReportEvent"
      by (simp add: filter_eligible_empty)
    ultimately show ?thesis
      using ne by (auto simp: EmptyResultSet_def NoFeasibleSamples_def)
  next
    case False
    then have "\<exists>s. buildSummary c n rs = Inr s"
      by (simp add: buildSummary_feasible)
    moreover from False
    have "\<not> (\<forall>r\<in>set rs. Event r \<noteq> CompletedEvent \<and> Event r \<noteq> ProgressReportEvent)"
      by (simp add: filter_eligible_empty)
    ultimately show ?thesis
      using ne by auto
  qed
qed


theorem summarize_failure_conditions_witness:
  "buildSummary 1 1 [] = Inl EmptyResultSet \<and>
   buildSummary 1 1
     [\<lparr>WorkerId = 0, Event = ConnectFailedEvent, PublishTime = 0, MessagesPublished = 0,
       Error = True, ErrorMessage = Some ''refused''\<rparr>] = Inl NoFeasibleSamples \<and>
   (\<exists>s. buildSummary 1 1
     [\<lparr>WorkerId = 0, Event = CompletedEvent, PublishTime = Second, MessagesPublished = 1,
       Error = False, ErrorMessage = None\<rparr>] = Inr s)"
  using summarize_failure_conditions [of 1 1 "[]"]
    summarize_failure_conditions [of 1 1
      "[\<lparr>WorkerId = 0, Event = ConnectFailedEvent, PublishTime = 0, MessagesPublished = 0,
         Error = True, ErrorMessage = Some ''refused''\<rparr>]"]
    summarize_failure_conditions [of 1 1
      "[\<lparr>WorkerId = 0, Event = CompletedEvent, PublishTime = Second, MessagesPublished = 1,
         Error = False, ErrorMessage = None\<rparr>]"]
  by (simp add: event_defs)

lemma error_categories_le:
  "int (length (filter (\<lambda>r. Error r \<and> Event r = ConnectFailedEvent) rs))
   + int (length (filter (\<lambda>r. Error r \<and> Event r = TimeoutExceededEvent) rs))
   + int (length (filter (\<lambda>r. Error r \<and> Event r = AbortedEvent) rs))
   \<le> int (length (filter Error rs))"
  by (induction rs) (auto simp: event_defs)

lemma eligible_exists:
  "(\<exists>r\<in>set rs. Event r = CompletedEvent \<or> Event r = ProgressReportEvent)
    = (filter eligible rs \<noteq> [])"
  by (auto simp: filter_empty_conv eligible_def)

lemma length_eligible:
  "int (length (filter eligible rs)) =
     int (length (filter (\<lambda>r. Event r = CompletedEvent) rs))
   + int (length (filter (\<lambda>r. Event r = ProgressReportEvent) rs))"
  by (induction rs) (auto simp: eligible_def event_defs)

text \<open>
  C5.  When some result has the event Completed or ProgressReport, \<^verbatim>\<open>buildSummary\<close>
  returns a summary; its sample sequence has as many elements as the Completed and
  InProgress counters together; the samples are, up to their order, the published count
  divided by the publish time in seconds of each such result; and the sequence is in
  ascending order (the order of \<^verbatim>\<open>sort.Float64s\<close>).
\<close>

theorem summarize_samples:
  assumes "\<exists>r\<in>set rs. Event r = CompletedEvent \<or> Event r = ProgressReportEvent"
  shows "\<exists>s. buildSummary c n rs = Inr s \<and>
           int (length (PublishPerformance s)) = Completed s + InProgress s \<and>
           mset (PublishPerformance s) = mset (map throughput (filter eligible rs)) \<and>
           ascending (PublishPerformance s)"
proof -
  from assms have el: "filter eligible rs \<noteq> []"
    by (simp add: eligible_exists)
  let ?t = "fold tallyStep rs tally0"
  let ?perf = "Float64s (map throughput (filter eligible rs))"
  have len: "int (length ?perf) = nCompleted ?t + nInProgress ?t"
    by (simp add: length_Float64s length_eligible fold_nCompleted fold_nInProgress tally0_def)
  have "mset ?perf = mset (map throughput (filter eligible rs))"
    by (rule mset_Float64s)
  moreover have "ascending ?perf"
    by (rule ascending_Float64s)
  ultimately show ?thesis
    using len by (simp add: buildSummary_feasible [OF el])
qed

theorem summarize_samples_witness:
  "(\<exists>r\<in>set [\<lparr>WorkerId = 0, Event = CompletedEvent, PublishTime = 2 * Second,
                 MessagesPublished = 10, Error = False, ErrorMessage = None\<rparr>,
               \<lparr>WorkerId = 1, Event = ProgressReportEvent, PublishTime = Second,
                 MessagesPublished = 3, Error = False, ErrorMessage = None\<rparr>].
      Event r = CompletedEvent \<or> Event r = ProgressReportEvent) \<and>
   (\<exists>s. buildSummary 2 10
          [\<lparr>WorkerId = 0, Event = CompletedEvent, PublishTime = 2 * Second,
             MessagesPublished = 10, Error = False, ErrorMessage = None\<rparr>,
           \<lparr>WorkerId = 1, Event = ProgressReportEvent, PublishTime = Second,
             MessagesPublished = 3, Error = False, ErrorMessage = None\<rparr>] = Inr s \<and>
        int (length (PublishPerformance s)) = Completed s + InProgress s \<and>
        mset (PublishPerformance s) = {#Finite 5, Finite 3#} \<and>
        ascending (PublishPerformance s))"
  using summarize_samples [of
      "[\<lparr>WorkerId = 0, Event = CompletedEvent, PublishTime = 2 * Second,
          MessagesPublished = 10, Error = False, ErrorMessage = None\<rparr>,
        \<lparr>WorkerId = 1, Event = ProgressReportEvent, PublishTime = Second,
          MessagesPublished = 3, Error = False, ErrorMessage = None\<rparr>]" 2 10]
  by (simp add: event_defs eligible_def throughput_def Seconds_def Second_def float64_of_int_def)

text \<open>
  C10.  In every summary that \<^verbatim>\<open>buildSummary\<close> returns, Errors is the number of results
  with the error flag; ConnectFailed, TimeoutExceeded and Aborted count the results with
  the error flag and that event, so their sum is at most Errors; Completed and InProgress
  count the results with the event Completed or ProgressReport whether the error flag is
  set or not, and each of those results contributes its throughput sample.
\<close>

theorem summarize_counters:
  assumes "buildSummary c n rs = Inr s"
  shows "Errors s = int (length (filter Error rs)) \<and>
         ConnectFailed s = int (length (filter (\<lambda>r. Error r \<and> Event r = ConnectFailedEvent) rs)) \<and>
         TimeoutExceeded s = int (length (filter (\<lambda>r. Error r \<and> Event r = TimeoutExceededEvent) rs)) \<and>
         Aborted s = int (length (filter (\<lambda>r. Error r \<and> Event r = AbortedEvent) rs)) \<and>
         ConnectFailed s + TimeoutExceeded s + Aborted s \<le> Errors s \<and>
         Completed s = int (length (filter (\<lambda>r. Event r = CompletedEvent) rs)) \<and>
         InProgress s = int (length (filter (\<lambda>r. Event r = ProgressReportEvent) rs)) \<and>
         mset (PublishPerformance s) =
           mset (map throughput
             (filter (\<lambda>r. Event r = CompletedEvent \<or> Event r = ProgressReportEvent) rs))"
proof -
  have el: "filter eligible rs \<noteq> []"
  proof
    assume none: "filter eligible rs = []"
    show False
    proof (cases "rs = []")
      case True
      with assms show False by (simp add: buildSummary_empty)
    next
      case False
      with assms none show False by (simp add: buildSummary_infeasible)
    qed
  qed
  have eq: "(\<lambda>r. Event r = CompletedEvent \<or> Event r = ProgressReportEvent) = eligible"
    by (rule ext) (simp add: eligible_def)
  from assms have s: "s = \<lparr>Clients = c,
         TotalMessages = wrap64 (c * n),
         MessagesPublished = nMessagesPublished (fold tallyStep rs tally0),
         Errors = nErrors (fold tallyStep rs tally0),
         ErrorRate = fmul (fdiv (float64_of_int (nErrors (fold tallyStep rs tally0))) (float64_of_int c)) (Finite 100),
         Completed = nCompleted (fold tallyStep rs tally0),
         InProgress = nInProgress (fold tallyStep rs tally0),
         ConnectFailed = nConnectFailed (fold tallyStep rs tally0),
         TimeoutExceeded = nTimeoutExceeded (fold tallyStep rs tally0),
         Aborted = nAborted (fold tallyStep rs tally0),
         PublishPerformance = Float64s (map throughput (filter eligible rs)),
         PublishPerformanceMedian = medianOf (Float64s (map throughput (filter eligible rs))),
         PublishPerformanceHistogram = histogramOf (Float64s (map throughput (filter eligible rs)))
            (nCompleted (fold tallyStep rs tally0) + nInProgress (fold tallyStep rs tally0))\<rparr>"
    by (simp add: buildSummary_feasible [OF el])
  show ?thesis
    unfolding eq using error_categories_le [of rs]
    by (simp add: s fold_nErrors fold_nConnectFailed fold_nTimeoutExceeded fold_nAborted
        fold_nCompleted fold_nInProgress tally0_def mset_Float64s)
qed

theorem summarize_counters_witness:
  "\<exists>s. buildSummary 2 5
        [\<lparr>WorkerId = 0, Event = CompletedEvent, PublishTime = Second,
           MessagesPublished = 5, Error = True, ErrorMessage = Some ''late''\<rparr>,
         \<lparr>WorkerId = 1, Event = ConnectFailedEvent, PublishTime = 0,
           MessagesPublished = 0, Error = True, ErrorMessage = Some ''refused''\<rparr>] = Inr s \<and>
      Errors s = 2 \<and> ConnectFailed s = 1 \<and> TimeoutExceeded s = 0 \<and> Aborted s = 0 \<and>
      Completed s = 1 \<and> InProgress s = 0 \<and> mset (PublishPerformance s) = {#Finite 5#}"
proof -
  let ?rs = "[\<lparr>WorkerId = 0, Event = CompletedEvent, PublishTime = Second,
           MessagesPublished = 5, Error = True, ErrorMessage = Some ''late''\<rparr>,
         \<lparr>WorkerId = 1, Event = ConnectFailedEvent, PublishTime = 0,
           MessagesPublished = 0, Error = True, ErrorMessage = Some ''refused''\<rparr>]"
  have "filter eligible ?rs \<noteq> []"
    by (simp add: eligible_def)
  then obtain s where s: "buildSummary 2 5 ?rs = Inr s"
    by (simp add: buildSummary_feasible)
  from summarize_counters [OF s] have
    "Errors s = 2 \<and> ConnectFailed s = 1 \<and> TimeoutExceeded s = 0 \<and> Aborted s = 0 \<and>
     Completed s = 1 \<and> InProgress s = 0 \<and> mset (PublishPerformance s) = {#Finite 5#}"
    by (simp add: event_defs throughput_def Seconds_def Second_def float64_of_int_def)
  with s show ?thesis by blast
qed

text \<open>
  C6.  On a non-empty sequence of length \<open>n\<close>, \<^verbatim>\<open>median\<close> returns the average of the
  elements at the positions \<open>\<lfloor>(n - 1) / 2\<rfloor>\<close> and \<open>\<lfloor>n / 2\<rfloor>\<close>; the median of \<open>[5]\<close> is 5,
  that of \<open>[1, 2, 3, 4]\<close> is 2.5 and that of \<open>[1, 2, 3]\<close> is 2.
\<close>

theorem median_positions:
  "(series \<noteq> [] \<longrightarrow>
      median series =
        Inr (fdiv (fadd (series ! ((length series - 1) div 2)) (series ! (length series div 2)))
               (Finite 2))) \<and>
   median [Finite 5] = Inr (Finite 5) \<and>
   median [Finite 1, Finite 2, Finite 3, Finite 4] = Inr (Finite 2.5) \<and>
   median [Finite 1, Finite 2, Finite 3] = Inr (Finite 2)"
  by (simp add: median_nonempty)

theorem median_positions_witness:
  "[Finite 4, Finite 8, Finite 9, Finite 20] \<noteq> [] \<and>
   median [Finite 4, Finite 8, Finite 9, Finite 20] = Inr (Finite 8.5)"
  using median_positions [of "[Finite 4, Finite 8, Finite 9, Finite 20]"] by simp

lemmas bucket_eval = buildHistogram_def countBuckets_def index_def float64_of_int_def
  nBuckets_def fsub_def fge_def float64Less_def Let_def bucketScan.simps

text \<open>
  C4.  The scenario of the specification: three clients, ten messages each, two workers
  that completed ten messages in one and in two seconds, and one that failed to connect.
  The summary has 30 expected and 20 published messages, one error, error rate 100/3,
  two completed, one failed connection, the samples 5 and 10 and the median 7.5.
\<close>

theorem summarize_scenario:
  "buildSummary 3 10
     [\<lparr>WorkerId = 0, Event = CompletedEvent, PublishTime = 1 * Second,
        MessagesPublished = 10, Error = False, ErrorMessage = None\<rparr>,
      \<lparr>WorkerId = 1, Event = CompletedEvent, PublishTime = 2 * Second,
        MessagesPublished = 10, Error = False, ErrorMessage = None\<rparr>,
      \<lparr>WorkerId = 2, Event = ConnectFailedEvent, PublishTime = 0,
        MessagesPublished = 0, Error = True, ErrorMessage = Some ''refused''\<rparr>]
   = Inr \<lparr>Clients = 3, TotalMessages = 30, MessagesPublished = 20, Errors = 1,
        ErrorRate = Finite (100 / 3), Completed = 2, InProgress = 0,
        ConnectFailed = 1, TimeoutExceeded = 0, Aborted = 0,
        PublishPerformance = [Finite 5, Finite 10],
        PublishPerformanceMedian = Finite 7.5,
        PublishPerformanceHistogram = [(Finite 5.5, Finite 0.5), (Finite 10.5, Finite 1)]\<rparr>"
  by (simp add: buildSummary_def tallyStep_def countError_def countEvent_def tally0_def
      wrap64_def Seconds_def Second_def event_defs median_def quo_def bucket_eval)

subsection \<open>The histogram\<close>

lemma keys_increment:
  "map fst (increment k m) = (if k \<in> set (map fst m) then map fst m else map fst m @ [k])"
  by (induction m) (auto split: if_splits)

lemma sum_increment: "sum_list (map snd (increment k m)) = sum_list (map snd m) + 1"
  by (induction m) auto

lemma positive_increment:
  "\<forall>p\<in>set m. 0 < snd p \<Longrightarrow> \<forall>p\<in>set (increment k m). 0 < snd p"
  by (induction m) (fastforce split: if_splits)+

lemma fold_increment_keys:
  "set (map fst (fold (\<lambda>v bc. increment (g v) bc) vs m)) = set (map fst m) \<union> g ` set vs"
proof (induction vs arbitrary: m)
  case Nil
  then show ?case by simp
next
  case (Cons v vs)
  have "set (map fst (increment (g v) m)) = insert (g v) (set (map fst m))"
    by (auto simp: keys_increment)
  with Cons.IH [of "increment (g v) m"] show ?case
    by auto
qed

lemma fold_increment_distinct:
  "distinct (map fst m) \<Longrightarrow> distinct (map fst (fold (\<lambda>v bc. increment (g v) bc) vs m))"
proof (induction vs arbitrary: m)
  case Nil
  then show ?case by simp
next
  case (Cons v vs)
  from Cons.prems have "distinct (map fst (increment (g v) m))"
    by (simp add: keys_increment)
  then show ?case
    using Cons.IH by simp
qed

lemma fold_increment_sum:
  "sum_list (map snd (fold (\<lambda>v bc. increment (g v) bc) vs m)) =
     sum_list (map snd m) + int (length vs)"
  by (induction vs arbitrary: m) (simp_all add: sum_increment)

lemma fold_increment_positive:
  "\<forall>p\<in>set m. 0 < snd p \<Longrightarrow>
   \<forall>p\<in>set (fold (\<lambda>v bc. increment (g v) bc) vs m). 0 < snd p"
proof (induction vs arbitrary: m)
  case Nil
  then show ?case by simp
next
  case (Cons v vs)
  from Cons.prems have "\<forall>p\<in>set (increment (g v) m). 0 < snd p"
    by (rule positive_increment)
  then show ?case
    using Cons.IH by simp
qed

lemma lookup_nonneg: "\<forall>p\<in>set m. 0 < snd p \<Longrightarrow> 0 \<le> lookup m k"
  by (induction m) auto

lemma lookup_sum:
  "distinct (map fst m) \<Longrightarrow> sum_list (map (\<lambda>p. lookup m (fst p)) m) = sum_list (map snd m)"
proof (induction m)
  case Nil
  then show ?case by simp
next
  case (Cons p m)
  obtain k c where p: "p = (k, c)" by (cases p)
  from Cons.prems have k: "k \<notin> set (map fst m)" and d: "distinct (map fst m)"
    by (simp_all add: p)
  have "map (\<lambda>q. lookup (p # m) (fst q)) m = map (\<lambda>q. lookup m (fst q)) m"
    using k by (intro map_cong) (auto simp: p)
  then have "sum_list (map (\<lambda>q. lookup (p # m) (fst q)) m) = sum_list (map snd m)"
    using Cons.IH [OF d] by (simp only:)
  moreover have "lookup (p # m) (fst p) = snd p"
    by (simp add: p)
  ultimately show ?case
    by (simp only: list.map sum_list.Cons)
qed

lemma lookup_sum_perm:
  assumes "distinct (map fst m)" and "mset ks = mset (map fst m)"
  shows "sum_list (map (lookup m) ks) = sum_list (map snd m)"
proof -
  have "sum_list (map (lookup m) ks) = sum_mset (image_mset (lookup m) (mset ks))"
    by (simp add: sum_mset_sum_list [symmetric])
  also have "\<dots> = sum_mset (image_mset (lookup m) (mset (map fst m)))"
    by (simp only: assms(2))
  also have "\<dots> = sum_list (map (\<lambda>p. lookup m (fst p)) m)"
    by (simp add: sum_mset_sum_list [symmetric] comp_def image_mset.compositionality)
  finally show ?thesis
    using assms(1) by (simp add: lookup_sum)
qed

lemma keys_cumulate: "map fst (cumulate bc t ks p) = ks"
  by (induction ks arbitrary: p) (simp_all add: Let_def)

lemma share_finite:
  "t \<noteq> 0 \<Longrightarrow> fadd (fdiv (float64_of_int c) (float64_of_int t)) (Finite p)
     = Finite (of_int c / of_int t + p)"
  by (simp add: float64_of_int_def)

lemma cumulate_above:
  assumes "0 < t" and "\<forall>k. 0 \<le> lookup bc k"
  shows "\<forall>v\<in>snd ` set (cumulate bc t ks (Finite p)). \<exists>q. v = Finite q \<and> p \<le> q"
  using assms
proof (induction ks arbitrary: p)
  case Nil
  then show ?case by simp
next
  case (Cons k ks)
  let ?q = "of_int (lookup bc k) / of_int t + p"
  from Cons.prems have step: "p \<le> ?q" by simp
  have "\<forall>v\<in>snd ` set (cumulate bc t ks (Finite ?q)). \<exists>q. v = Finite q \<and> ?q \<le> q"
    using Cons.prems by (rule Cons.IH)
  with step have "\<forall>v\<in>snd ` set (cumulate bc t ks (Finite ?q)). \<exists>q. v = Finite q \<and> p \<le> q"
    by force
  with step Cons.prems(1) show ?case
    by (simp add: share_finite Let_def)
qed

lemma cumulate_monotone:
  assumes "0 < t" and "\<forall>k. 0 \<le> lookup bc k"
  shows "sorted_wrt fle (map snd (cumulate bc t ks (Finite p)))"
  using assms
proof (induction ks arbitrary: p)
  case Nil
  then show ?case by simp
next
  case (Cons k ks)
  let ?q = "of_int (lookup bc k) / of_int t + p"
  have "\<forall>v\<in>snd ` set (cumulate bc t ks (Finite ?q)). \<exists>q. v = Finite q \<and> ?q \<le> q"
    using Cons.prems by (rule cumulate_above)
  then have "\<forall>v\<in>snd ` set (cumulate bc t ks (Finite ?q)). fle (Finite ?q) v"
    by force
  moreover have "sorted_wrt fle (map snd (cumulate bc t ks (Finite ?q)))"
    using Cons.prems by (rule Cons.IH)
  ultimately show ?case
    using Cons.prems(1) by (simp add: share_finite Let_def)
qed

lemma cumulate_last:
  assumes "0 < t" and "ks \<noteq> []"
  shows "snd (last (cumulate bc t ks (Finite p)))
     = Finite (p + of_int (sum_list (map (lookup bc) ks)) / of_int t)"
  using assms
proof (induction ks arbitrary: p)
  case Nil
  then show ?case by simp
next
  case (Cons k ks)
  let ?q = "of_int (lookup bc k) / of_int t + p"
  show ?case
  proof (cases "ks = []")
    case True
    with Cons.prems(1) show ?thesis
      by (simp add: share_finite Let_def)
  next
    case False
    then have ne: "cumulate bc t ks (Finite ?q) \<noteq> []"
      by (cases ks) (simp_all add: Let_def)
    from Cons.IH [OF Cons.prems(1) False, of ?q] ne Cons.prems(1) show ?thesis
      by (simp add: share_finite Let_def add_divide_distrib)
  qed
qed

lemma strictly_ascending:
  "ascending xs \<Longrightarrow> distinct xs \<Longrightarrow> sorted_wrt float64Less xs"
  by (induction xs) (auto simp: ascending_Cons intro: float64Less_total)

lemma countBuckets_keys:
  "set (map fst (countBuckets slowest steps series)) =
     (\<lambda>v. bucketScan slowest steps v 0 (Finite 0)) ` set series"
  unfolding countBuckets_def by (simp only: fold_increment_keys) simp

lemma countBuckets_distinct: "distinct (map fst (countBuckets slowest steps series))"
  unfolding countBuckets_def by (rule fold_increment_distinct) simp

lemma countBuckets_sum:
  "sum_list (map snd (countBuckets slowest steps series)) = int (length series)"
  unfolding countBuckets_def by (simp only: fold_increment_sum) simp

lemma countBuckets_positive: "\<forall>p\<in>set (countBuckets slowest steps series). 0 < snd p"
  unfolding countBuckets_def by (rule fold_increment_positive) simp

lemma histogramOf_keys:
  "set (map fst (histogramOf series t)) = bucketOf series ` set series"
proof -
  have sorted: "set (Float64s xs) = set xs" for xs
    using mset_Float64s [of xs] by (rule mset_eq_setD)
  have "bucketOf series =
      (\<lambda>v. bucketScan (hd series)
        (fdiv (fsub (last series) (hd series)) (float64_of_int nBuckets)) v 0 (Finite 0))"
    by (rule ext) (simp only: bucketOf_def)
  then show ?thesis
    by (simp only: histogramOf_def Let_def keys_cumulate sorted countBuckets_keys)
qed

text \<open>
  C7.  For a non-empty slice of samples and a total equal to its length, the histogram
  exists; its entries, which are in ascending key order, have strictly increasing keys
  and non-decreasing cumulative values; the last value is 1 (exactly, as finite
  arithmetic is exact in this model); and every key is the bucket of at least one sample,
  so no bucket with count zero appears.
\<close>

theorem histogram_cumulative:
  assumes "series \<noteq> []"
  shows "\<exists>h. buildHistogram series (int (length series)) = Inr h \<and>
           sorted_wrt float64Less (map fst h) \<and>
           sorted_wrt fle (map snd h) \<and>
           snd (last h) = Finite 1 \<and>
           (\<forall>k\<in>set (map fst h). \<exists>v\<in>set series. bucketOf series v = k)"
proof -
  let ?n = "int (length series)"
  let ?steps = "fdiv (fsub (last series) (hd series)) (float64_of_int nBuckets)"
  let ?bc = "countBuckets (hd series) ?steps series"
  let ?keys = "Float64s (map fst ?bc)"
  let ?h = "histogramOf series ?n"
  have h: "?h = cumulate ?bc ?n ?keys (Finite 0)"
    by (simp add: histogramOf_def Let_def)
  from assms have n: "0 < ?n" by simp
  have nonneg: "\<forall>k. 0 \<le> lookup ?bc k"
    using countBuckets_positive by (simp add: lookup_nonneg)
  have perm: "mset ?keys = mset (map fst ?bc)"
    by (rule mset_Float64s)
  have "distinct ?keys"
    using mset_eq_imp_distinct_iff [OF perm] countBuckets_distinct [of "hd series" ?steps series]
    by blast
  with ascending_Float64s have "sorted_wrt float64Less ?keys"
    by (rule strictly_ascending)
  then have keys: "sorted_wrt float64Less (map fst ?h)"
    by (simp only: h keys_cumulate)
  have vals: "sorted_wrt fle (map snd ?h)"
    unfolding h using n nonneg by (rule cumulate_monotone)
  have "length ?keys = length ?bc"
    by (simp add: length_Float64s)
  moreover have "length ?bc \<noteq> 0"
    using countBuckets_sum [of "hd series" ?steps series] assms by auto
  ultimately have ne: "?keys \<noteq> []" by auto
  have "sum_list (map (lookup ?bc) ?keys) = sum_list (map snd ?bc)"
    using countBuckets_distinct perm by (rule lookup_sum_perm)
  then have total: "sum_list (map (lookup ?bc) ?keys) = ?n"
    by (simp only: countBuckets_sum)
  have "snd (last ?h) = Finite (0 + of_int (sum_list (map (lookup ?bc) ?keys)) / of_int ?n)"
    unfolding h using n ne by (rule cumulate_last)
  then have final: "snd (last ?h) = Finite 1"
    using n by (simp only: total) simp
  have "\<forall>k\<in>set (map fst ?h). \<exists>v\<in>set series. bucketOf series v = k"
    by (simp only: histogramOf_keys) blast
  with keys vals final show ?thesis
    using buildHistogram_nonempty [OF assms, of ?n] by blast
qed

theorem histogram_cumulative_witness:
  "[Finite 5, Finite 10] \<noteq> [] \<and>
   (\<exists>h. buildHistogram [Finite 5, Finite 10] 2 = Inr h \<and>
      sorted_wrt float64Less (map fst h) \<and> sorted_wrt fle (map snd h) \<and>
      snd (last h) = Finite 1 \<and>
      (\<forall>k\<in>set (map fst h). \<exists>v\<in>set [Finite 5, Finite 10]. bucketOf [Finite 5, Finite 10] v = k))"
  using histogram_cumulative [of "[Finite 5, Finite 10]"] by simp

lemma bucketScan_stop: "nBuckets < i \<Longrightarrow> bucketScan slowest steps v i tmp = tmp"
  by (subst bucketScan.simps) simp

lemma bucketScan_step:
  "i \<le> nBuckets \<Longrightarrow>
   bucketScan slowest steps v i tmp =
     bucketScan slowest steps v (i + 1)
       (if inInterval slowest steps v i then intervalUpper slowest steps i else tmp)"
  by (subst bucketScan.simps)
     (simp add: Let_def inInterval_def intervalLower_def intervalUpper_def)

text \<open>
  The scan from the index \<open>i\<close> on: either no interval from \<open>i\<close> to \<open>nBuckets\<close> holds
  \<open>v\<close> and \<open>tmp\<close> is returned, or the upper bound of the last interval that holds \<open>v\<close>
  is.  Nothing is used of the arithmetic but the bounds themselves.
\<close>

lemma bucketScan_last_match:
  "(bucketScan slowest steps v i tmp = tmp \<and>
      (\<forall>j. i \<le> j \<and> j \<le> nBuckets \<longrightarrow> \<not> inInterval slowest steps v j)) \<or>
   (\<exists>j. i \<le> j \<and> j \<le> nBuckets \<and> inInterval slowest steps v j \<and>
        bucketScan slowest steps v i tmp = intervalUpper slowest steps j \<and>
        (\<forall>j'. j < j' \<and> j' \<le> nBuckets \<longrightarrow> \<not> inInterval slowest steps v j'))"
proof (induction n \<equiv> "nat (nBuckets + 1 - i)" arbitrary: i tmp)
  case 0
  then have "nBuckets < i" by simp
  then show ?case
    by (intro disjI1) (auto simp: bucketScan_stop)
next
  case (Suc n)
  then have i: "i \<le> nBuckets" and n: "n = nat (nBuckets + 1 - (i + 1))"
    by simp_all
  let ?tmp' = "if inInterval slowest steps v i then intervalUpper slowest steps i else tmp"
  let ?r = "bucketScan slowest steps v i tmp"
  have r: "?r = bucketScan slowest steps v (i + 1) ?tmp'"
    using i by (rule bucketScan_step)
  from Suc.hyps(1) [OF n, of ?tmp'] show ?case
  proof (elim disjE conjE exE)
    assume stay: "bucketScan slowest steps v (i + 1) ?tmp' = ?tmp'"
      and none: "\<forall>j. i + 1 \<le> j \<and> j \<le> nBuckets \<longrightarrow> \<not> inInterval slowest steps v j"
    show ?thesis
    proof (cases "inInterval slowest steps v i")
      case True
      with r stay have "?r = intervalUpper slowest steps i" by simp
      with True none i show ?thesis
        by (intro disjI2 exI [of _ i]) auto
    next
      case False
      with r stay have "?r = tmp" by simp
      moreover have "\<not> inInterval slowest steps v j" if "i \<le> j \<and> j \<le> nBuckets" for j
        using that none False by (cases "j = i") auto
      ultimately show ?thesis by blast
    qed
  next
    fix j
    assume "i + 1 \<le> j" "j \<le> nBuckets" "inInterval slowest steps v j"
      "bucketScan slowest steps v (i + 1) ?tmp' = intervalUpper slowest steps j"
      "\<forall>j'. j < j' \<and> j' \<le> nBuckets \<longrightarrow> \<not> inInterval slowest steps v j'"
    with r show ?thesis
      by (intro disjI2 exI [of _ j]) auto
  qed
qed

lemma fle_not_NaN: "fle x y \<Longrightarrow> y \<noteq> NaN"
  by (cases x; cases y) simp_all

text \<open>
  No key of \<^verbatim>\<open>bucketCount\<close> is NaN, the one float64 that a Go map would not find again:
  a bound replaces \<open>tmp\<close> only after a comparison with it succeeded.
\<close>

lemma bucketScan_not_NaN:
  "tmp \<noteq> NaN \<Longrightarrow> bucketScan slowest steps v i tmp \<noteq> NaN"
proof (induction n \<equiv> "nat (nBuckets + 1 - i)" arbitrary: i tmp)
  case 0
  then have "nBuckets < i" by simp
  with "0.prems" show ?case
    by (simp add: bucketScan_stop)
next
  case (Suc n)
  then have i: "i \<le> nBuckets" and n: "n = nat (nBuckets + 1 - (i + 1))"
    by simp_all
  let ?tmp' = "if inInterval slowest steps v i then intervalUpper slowest steps i else tmp"
  from Suc.prems have "?tmp' \<noteq> NaN"
    by (auto simp: inInterval_def dest: fle_not_NaN)
  then have "bucketScan slowest steps v (i + 1) ?tmp' \<noteq> NaN"
    using n by (intro Suc.hyps(1)) simp_all
  with i show ?case
    by (simp add: bucketScan_step)
qed

lemma bucketOf_not_NaN: "bucketOf series v \<noteq> NaN"
  unfolding bucketOf_def by (rule bucketScan_not_NaN) simp

lemma bucketOf_scan:
  "bucketOf series v = bucketScan (hd series) (stepsOf series) v 0 (Finite 0)"
  by (simp add: bucketOf_def stepsOf_def)

lemma bucketOf_last_match:
  "(bucketOf series v = Finite 0 \<and>
      (\<forall>j. 0 \<le> j \<and> j \<le> 10 \<longrightarrow> \<not> inInterval (hd series) (stepsOf series) v j)) \<or>
   (\<exists>j. 0 \<le> j \<and> j \<le> 10 \<and> inInterval (hd series) (stepsOf series) v j \<and>
        bucketOf series v = intervalUpper (hd series) (stepsOf series) j \<and>
        (\<forall>j'. j < j' \<and> j' \<le> 10 \<longrightarrow> \<not> inInterval (hd series) (stepsOf series) v j'))"
  using bucketScan_last_match [of "hd series" "stepsOf series" v 0 "Finite 0"]
  by (simp only: bucketOf_scan nBuckets_def)

text \<open>
  C3, as the code has it.  For a non-empty sequence of samples, with \<open>slowest\<close> its first
  element, \<open>fastest\<close> its last and \<open>steps = (fastest - slowest) / 10\<close>, the scan visits the
  eleven intervals from \<open>slowest + steps * j\<close> to \<open>slowest + steps * (j + 1)\<close>,
  \<open>j = 0, \<dots>, 10\<close>, with the bounds as the program computes them.  A sample is counted
  under the upper bound of the last of these intervals that holds it, so a sample that two
  neighbouring intervals hold goes to the upper one; a sample that none holds is counted
  under 0.  The keys of the histogram are exactly the keys of the samples.  The statement
  speaks of the computed bounds only, so it does not depend on how finite arithmetic
  rounds, and it covers infinite and NaN samples.
\<close>

theorem histogram_bucket_keys:
  assumes "series \<noteq> []"
  shows "\<exists>h. buildHistogram series t = Inr h \<and>
     set (map fst h) = bucketOf series ` set series \<and>
     (\<forall>v\<in>set series.
        (bucketOf series v = Finite 0 \<and>
           (\<forall>j. 0 \<le> j \<and> j \<le> 10 \<longrightarrow> \<not> inInterval (hd series) (stepsOf series) v j)) \<or>
        (\<exists>j. 0 \<le> j \<and> j \<le> 10 \<and> inInterval (hd series) (stepsOf series) v j \<and>
           bucketOf series v = intervalUpper (hd series) (stepsOf series) j \<and>
           (\<forall>j'. j < j' \<and> j' \<le> 10 \<longrightarrow> \<not> inInterval (hd series) (stepsOf series) v j')))"
proof -
  from assms have "buildHistogram series t = Inr (histogramOf series t)"
    by (rule buildHistogram_nonempty)
  moreover have "set (map fst (histogramOf series t)) = bucketOf series ` set series"
    by (rule histogramOf_keys)
  ultimately show ?thesis
    using bucketOf_last_match [of series] by blast
qed

theorem histogram_bucket_keys_witness:
  "[Finite 0, Finite 5, Finite 10] \<noteq> [] \<and>
   (\<exists>h. buildHistogram [Finite 0, Finite 5, Finite 10] 3 = Inr h \<and>
      set (map fst h) = {Finite 1, Finite 6, Finite 11})"
proof -
  have keys: "bucketOf [Finite 0, Finite 5, Finite 10] ` set [Finite 0, Finite 5, Finite 10]
      = {Finite 1, Finite 6, Finite 11}"
    by (simp add: bucketOf_def bucket_eval)
  from histogram_bucket_keys [of "[Finite 0, Finite 5, Finite 10]" 3]
  obtain h where "buildHistogram [Finite 0, Finite 5, Finite 10] 3 = Inr h"
    and "set (map fst h) = bucketOf [Finite 0, Finite 5, Finite 10] ` set [Finite 0, Finite 5, Finite 10]"
    by blast
  with keys show ?thesis
    by (intro conjI exI [of _ h]) simp_all
qed

text \<open>
  The samples 0, 5 and 10: the sample 5, on the boundary of the intervals \<open>[4, 5]\<close> and
  \<open>[5, 6]\<close>, has the key 6, and the sample 10 has the key 11, above the maximum.
\<close>

theorem histogram_key_above_max:
  "buildHistogram [Finite 0, Finite 5, Finite 10] 3 =
     Inr [(Finite 1, Finite (1 / 3)), (Finite 6, Finite (2 / 3)), (Finite 11, Finite 1)] \<and>
   bucketOf [Finite 0, Finite 5, Finite 10] (Finite 5) = Finite 6 \<and>
   bucketOf [Finite 0, Finite 5, Finite 10] (Finite 10) = Finite 11 \<and>
   \<not> fle (Finite 11) (Finite 10)"
  by (simp add: bucketOf_def bucket_eval)

section \<open>Properties of worker.go\<close>

lemma publishLoop_trace:
  "i \<le> NumberOfMessages w \<Longrightarrow>
   publishLoop env w topic i c trace =
     (c + (NumberOfMessages w - i),
      trace @ concat (map (publishStep env w topic) [i..NumberOfMessages w - 1]))"
proof (induction env w topic i c trace rule: publishLoop.induct)
  case (1 env w topic i c trace)
  show ?case
  proof (cases "i < NumberOfMessages w")
    case True
    then have up: "[i..NumberOfMessages w - 1] = i # [i + 1..NumberOfMessages w - 1]"
      by (simp add: upto_rec1)
    from True have "i + 1 \<le> NumberOfMessages w" by simp
    with True "1.IH" show ?thesis
      by (subst publishLoop.simps) (simp add: up)
  next
    case False
    with "1.prems" have "i = NumberOfMessages w" by simp
    then show ?thesis
      by (subst publishLoop.simps) simp
  qed
qed

lemma publishLoop_none:
  "NumberOfMessages w \<le> i \<Longrightarrow> publishLoop env w topic i c trace = (c, trace)"
  by (subst publishLoop.simps) simp

lemma sent_append: "sent (xs @ ys) = sent xs @ sent ys"
  by (induction xs rule: sent.induct) simp_all

lemma sent_publishSteps: "sent (concat (map (publishStep env w topic) js)) = []"
  by (induction js) (simp_all add: publishStep_def sent_append)

lemma publishLoop_from_zero:
  "\<exists>trace'. publishLoop env w topic 0 0 trace = (max 0 (NumberOfMessages w), trace') \<and>
      sent trace' = sent trace"
proof (cases "0 \<le> NumberOfMessages w")
  case True
  then show ?thesis
    by (simp add: publishLoop_trace sent_append sent_publishSteps)
next
  case False
  then show ?thesis
    by (simp add: publishLoop_none)
qed

lemma NewTLSConfig_fails:
  "(\<exists>err. NewTLSConfig env ca certificate privkey = Inl err) =
     (\<not> appendCertsFromPEM env ca \<or> (\<exists>err. x509KeyPair env certificate privkey = Inl err))"
  by (auto simp: NewTLSConfig_def split: sum.splits)

lemma connect_error_reports_failure:
  assumes "hostname env = Inr host"
    and "publisherOptions env w = Inr opts"
    and "inTime (connectToken env opts)"
    and "tokenError (connectToken env opts) = Some err"
  shows "Run env w =
    (Returned,
     [Connect opts, WaitTimeout (Timeout w) True,
      Send \<lparr>WorkerId = Worker.WorkerId w, Event = ConnectFailedEvent, PublishTime = 0,
             MessagesPublished = 0, Error = True, ErrorMessage = Some err\<rparr>])"
  using assms by (simp add: Run_def Let_def)

lemmas run_eval = Run_def publisherOptions_def NewTLSConfig_def silentBroker_def brokenCA_def
  plainWorker_def tlsWorker_def Config0_def publishStep_def publishLoop.simps Let_def

text \<open>
  C1.  A worker whose connect attempt times out (\<^verbatim>\<open>WaitTimeout\<close> returns false) does not
  send a ConnectFailed result: the test of line 122 is false, the publish loop runs, and
  the only result sent is a Completed one that counts every message of the worker as
  published.
\<close>

theorem connect_timeout_reports_completed:
  assumes "hostname env = Inr host"
    and "publisherOptions env w = Inr opts"
    and "\<not> inTime (connectToken env opts)"
  shows "fst (Run env w) = Returned \<and>
         sent (snd (Run env w)) =
           [\<lparr>WorkerId = Worker.WorkerId w, Event = CompletedEvent, PublishTime = since env,
             MessagesPublished = max 0 (NumberOfMessages w), Error = False,
             ErrorMessage = None\<rparr>]"
proof -
  let ?topic = "topicNameOf env host (idNum env (Worker.WorkerId w)) (int31 env)"
  let ?trace = "[Connect opts, WaitTimeout (Timeout w) (inTime (connectToken env opts))]"
  obtain trace' where loop: "publishLoop env w ?topic 0 0 ?trace = (max 0 (NumberOfMessages w), trace')"
    and quiet: "sent trace' = sent ?trace"
    using publishLoop_from_zero by blast
  from quiet have "sent trace' = []" by simp
  with assms loop show ?thesis
    by (simp add: Run_def Let_def sent_append)
qed

theorem connect_timeout_reports_completed_witness:
  "hostname silentBroker = Inr ''host'' \<and>
   \<not> inTime (connectToken silentBroker
       \<lparr>ClientID = ''client'', Username = [], Password = [], Servers = [''tcp://localhost:1883''],
        TLSConfig = Config0\<rparr>) \<and>
   fst (Run silentBroker plainWorker) = Returned \<and>
   sent (snd (Run silentBroker plainWorker)) =
     [\<lparr>WorkerId = 1, Event = CompletedEvent, PublishTime = 3 * Second,
       MessagesPublished = 2, Error = False, ErrorMessage = None\<rparr>]"
  using connect_timeout_reports_completed [of silentBroker "''host''" plainWorker
      "\<lparr>ClientID = ''client'', Username = [], Password = [], Servers = [''tcp://localhost:1883''],
        TLSConfig = Config0\<rparr>"]
  by (simp add: silentBroker_def plainWorker_def publisherOptions_def Let_def)

text \<open>
  C8, as the code has it.  When the CA or the key of a worker is not empty and the TLS
  configuration cannot be built (the CA block is refused or the certificate and key do
  not parse as a pair), \<^verbatim>\<open>Run\<close> panics with that error before any call on the MQTT
  client: the trace is empty, so there is no connect attempt and no result is sent.
\<close>

theorem tls_failure_panics:
  assumes "hostname env = Inr host"
    and "CA w \<noteq> [] \<or> Key w \<noteq> []"
    and "\<not> appendCertsFromPEM env (CA w) \<or> (\<exists>err. x509KeyPair env (Cert w) (Key w) = Inl err)"
  shows "\<exists>err. Run env w = (Panicked err, [])"
proof -
  from assms(3) obtain err where "NewTLSConfig env (CA w) (Cert w) (Key w) = Inl err"
    using NewTLSConfig_fails [of env "CA w" "Cert w" "Key w"] by blast
  with assms(2) have "publisherOptions env w = Inl err"
    by (auto simp: publisherOptions_def Let_def)
  with assms(1) show ?thesis
    by (simp add: Run_def Let_def)
qed

theorem tls_failure_panics_witness:
  "hostname brokenCA = Inr ''host'' \<and> CA tlsWorker \<noteq> [] \<and>
   \<not> appendCertsFromPEM brokenCA (CA tlsWorker) \<and>
   (\<exists>err. Run brokenCA tlsWorker = (Panicked err, []))"
  using tls_failure_panics [of brokenCA "''host''" tlsWorker]
  by (simp add: brokenCA_def silentBroker_def tlsWorker_def plainWorker_def)

text \<open>
  The worker with a CA block that the parser refuses: the run panics and sends no
  result, so no ConnectFailed result exists for it.
\<close>

theorem tls_failure_sends_nothing:
  "Run brokenCA tlsWorker = (Panicked ''CA is invalid'', []) \<and>
   sent (snd (Run brokenCA tlsWorker)) = []"
  by (simp add: run_eval)

text \<open>
  C9.  A worker that reaches the publish loop with a message count \<open>N \<ge> 0\<close> goes through
  all \<open>N\<close> turns, whatever the acknowledgment waits answer: the trace holds the publish,
  the wait and the sleep of every index from 0 to \<open>N - 1\<close> in order, then the disconnect,
  and the only result sent is a Completed one with published count \<open>N\<close>.
\<close>

theorem publish_loop_counts_every_message:
  assumes "hostname env = Inr host"
    and "publisherOptions env w = Inr opts"
    and "\<not> (inTime (connectToken env opts) \<and> tokenError (connectToken env opts) \<noteq> None)"
    and "0 \<le> NumberOfMessages w"
  shows "Run env w =
    (Returned,
     [Connect opts, WaitTimeout (Timeout w) (inTime (connectToken env opts))] @
     concat (map (publishStep env w (topicNameOf env host (idNum env (Worker.WorkerId w)) (int31 env)))
       [0..NumberOfMessages w - 1]) @
     [Disconnect 5,
      Send \<lparr>WorkerId = Worker.WorkerId w, Event = CompletedEvent,
             PublishTime = since env, MessagesPublished = NumberOfMessages w,
             Error = False, ErrorMessage = None\<rparr>])"
  using assms by (auto simp: Run_def Let_def publishLoop_trace)

theorem publish_loop_counts_every_message_witness:
  "hostname lateAcks = Inr ''host'' \<and> 0 \<le> NumberOfMessages plainWorker \<and>
   Run lateAcks plainWorker =
     (Returned,
      [Connect \<lparr>ClientID = ''client'', Username = [], Password = [],
                 Servers = [''tcp://localhost:1883''], TLSConfig = Config0\<rparr>,
       WaitTimeout (5 * Second) True,
       Publish ''topic'' 1 False ''payload'', WaitTimeout (5 * Second) False, Sleep 0,
       Publish ''topic'' 1 False ''payload'', WaitTimeout (5 * Second) False, Sleep 0,
       Disconnect 5,
       Send \<lparr>WorkerId = 1, Event = CompletedEvent, PublishTime = 3 * Second,
              MessagesPublished = 2, Error = False, ErrorMessage = None\<rparr>])"
proof -
  have "[0..1::int] = [0, 1]"
    by (simp add: upto.simps)
  with publish_loop_counts_every_message [of lateAcks "''host''" plainWorker
      "\<lparr>ClientID = ''client'', Username = [], Password = [],
        Servers = [''tcp://localhost:1883''], TLSConfig = Config0\<rparr>"]
  show ?thesis
    by (simp add: lateAcks_def silentBroker_def plainWorker_def publisherOptions_def
        publishStep_def Let_def)
qed

end
